theory Spec2Isabelle
  imports Main "HOL-Library.Multiset"
begin

section \<open>Data model of \<^verbatim>\<open>src/search/background/annots-list.ts\<close>\<close>

text \<open>
  An annotation as the plugin reads it: its key \<open>url\<close>, the page it belongs to, the time of
  its last edit (a JavaScript \<open>Date\<close>, kept as epoch milliseconds) and the two pre-tokenised
  term fields \<open>_body_terms\<close> (highlight) and \<open>_comment_terms\<close> (note).
\<close>

record Annotation =
  url :: string
  pageUrl :: string
  lastEdited :: int
  body_terms :: "string list"
  comment_terms :: "string list"

text \<open>
  \<open>AnnotSearchParams\<close> is declared outside the file; its fields are taken from their uses.
  Optional fields are options (\<open>None\<close> is \<open>undefined\<close>); a flag that is only tested for
  truthiness is a \<open>bool\<close>. Dates are epoch milliseconds. The page-scope parameter \<open>url\<close>
  of the source is the field \<open>p_url\<close>, the name \<open>url\<close> being the annotation's key.
\<close>

record AnnotSearchParams =
  termsInc :: "string list"
  includeHighlights :: bool
  includeNotes :: bool
  startDate :: "int option"
  endDate :: "int option"
  bookmarksOnly :: bool
  tagsInc :: "string list option"
  tagsExc :: "string list option"
  collections :: "string list option"
  limit :: "nat option"
  skip :: "nat option"
  p_url :: "string option"

text \<open>
  The Dexie tables the plugin queries. Each table is the list of its rows in the order in
  which the index used by the plugin walks them (for an \<open>equals\<close> or \<open>anyOf\<close> query on one
  index this is the order of the primary keys). Bookmarks are keyed by \<open>url\<close>, tags by the
  pair \<open>[name, url]\<close>, lists by their id, list entries by the pair \<open>[listId, url]\<close>.
\<close>

record Store =
  annots_coll :: "Annotation list"
  bms_coll :: "string list"
  tags_coll :: "(string \<times> string) list"
  lists_coll :: "(nat \<times> string) list"
  list_entries_coll :: "(nat \<times> string) list"

text \<open>
  What the host supplies: the clock (\<open>Date.now()\<close>, \<open>moment()\<close>, read as one instant
  during a query), the stored installation time (absent is \<open>None\<close>) and the offset of
  local time from UTC in milliseconds, taken as constant (no daylight-saving change).
\<close>

record Env =
  now :: int
  installTime :: "int option"
  utcOffset :: int

datatype error =
    UrlMissing
  | ReduceOfEmptyArray
  | PropertyOfUndefined

subsection \<open>JavaScript values and containers\<close>

text \<open>\<open>xs && xs.length\<close>: an array that is present and not empty.\<close>

definition has_items :: "'a list option \<Rightarrow> bool" where
  "has_items xs = (case xs of None \<Rightarrow> False | Some l \<Rightarrow> l \<noteq> [])"

text \<open>An optional array read as its elements, none when it is absent.\<close>

definition opt_items :: "'a list option \<Rightarrow> 'a list" where
  "opt_items xs = (case xs of None \<Rightarrow> [] | Some l \<Rightarrow> l)"

text \<open>Truthiness of an optional number, and \<open>d || dflt\<close>.\<close>

definition truthy :: "int option \<Rightarrow> bool" where
  "truthy d = (case d of None \<Rightarrow> False | Some n \<Rightarrow> n \<noteq> 0)"

definition or_default :: "int option \<Rightarrow> int \<Rightarrow> int" where
  "or_default d dflt = (case d of None \<Rightarrow> dflt | Some n \<Rightarrow> if n = 0 then dflt else n)"

text \<open>
  A JavaScript \<open>Map\<close> keeps its keys in the order of their first insertion; \<open>set\<close> on a key
  that is present replaces the value in place.
\<close>

fun map_set :: "('k \<times> 'v) list \<Rightarrow> 'k \<Rightarrow> 'v \<Rightarrow> ('k \<times> 'v) list" where
  "map_set [] k v = [(k, v)]"
| "map_set ((k', v') # m) k v = (if k' = k then (k, v) # m else (k', v') # map_set m k v)"

definition map_get :: "('k \<times> 'v) list \<Rightarrow> 'k \<Rightarrow> 'v option" where
  "map_get m k = map_of m k"

text \<open>\<open>m.get(k) || []\<close>\<close>

definition get_or_empty :: "('k \<times> 'v list) list \<Rightarrow> 'k \<Rightarrow> 'v list" where
  "get_or_empty m k = (case map_get m k of None \<Rightarrow> [] | Some vs \<Rightarrow> vs)"

text \<open>\<open>xs.slice(a, b)\<close> for \<open>0 \<le> a\<close>.\<close>

definition slice :: "'a list \<Rightarrow> nat \<Rightarrow> nat \<Rightarrow> 'a list" where
  "slice xs a b = take (b - a) (drop a xs)"

section \<open>Facet filters\<close>

text \<open>\<open>where('url').anyOf(urls).primaryKeys()\<close> on the bookmarks table.\<close>

definition filterByBookmarks :: "Store \<Rightarrow> string list \<Rightarrow> string list" where
  "filterByBookmarks st urls = filter (\<lambda>k. k \<in> set urls) (bms_coll st)"

definition filterByTags :: "Store \<Rightarrow> string list \<Rightarrow> AnnotSearchParams \<Rightarrow> string list" where
  "filterByTags st urls params =
    (let tags0 = filter (\<lambda>(name, u). u \<in> set urls) (tags_coll st);
         tags1 = (case tagsExc params of
                    None \<Rightarrow> tags0
                  | Some exc \<Rightarrow>
                      if exc \<noteq> [] then filter (\<lambda>(name, u). name \<notin> set exc) tags0 else tags0);
         tags2 = (case tagsInc params of
                    None \<Rightarrow> tags1
                  | Some inc \<Rightarrow>
                      if inc \<noteq> [] then filter (\<lambda>(name, u). name \<in> set inc) tags1 else tags1);
         tagUrls = set (map snd tags2)
     in filter (\<lambda>u. u \<in> tagUrls) urls)"

text \<open>
  \<open>filterByCollections\<close> is only called when \<open>params.collections\<close> is a non-empty array;
  an absent one is read here as no names.
\<close>

definition filterByCollections :: "Store \<Rightarrow> string list \<Rightarrow> AnnotSearchParams \<Rightarrow> string list" where
  "filterByCollections st urls params =
    (let names = opt_items (collections params);
         listIds = map fst (filter (\<lambda>(i, name). name \<in> set names) (lists_coll st));
         entries = filter (\<lambda>(i, u). u \<in> set urls) (list_entries_coll st);
         lists = set listIds;
         entryUrls = set (map snd (filter (\<lambda>(listId, u). listId \<in> lists) entries))
     in filter (\<lambda>u. u \<in> entryUrls) urls)"

definition filterResults :: "Store \<Rightarrow> string list \<Rightarrow> AnnotSearchParams \<Rightarrow> string list" where
  "filterResults st results params =
    (let r1 = (if bookmarksOnly params then filterByBookmarks st results else results);
         r2 = (if has_items (tagsInc params) \<or> has_items (tagsExc params)
               then filterByTags st r1 params else r1);
         r3 = (if has_items (collections params) then filterByCollections st r2 params else r2)
     in r3)"

section \<open>Result assembly\<close>

text \<open>
  \<open>where('url').anyOf(urls).each(annot => annotUrlMap.set(annot.url, annot))\<close>, then
  \<open>urls.map(url => annotUrlMap.get(url))\<close>: a key without a record gives \<open>undefined\<close>,
  here \<open>None\<close>.
\<close>

definition mapUrlsToAnnots :: "Store \<Rightarrow> string list \<Rightarrow> Annotation option list" where
  "mapUrlsToAnnots st urls =
    (let annotUrlMap =
           foldl (\<lambda>m annot. map_set m (url annot) annot) []
             (filter (\<lambda>annot. url annot \<in> set urls) (annots_coll st))
     in map (\<lambda>u. map_get annotUrlMap u) urls)"

text \<open>
  The record a key resolves to in the store: the row of the annotations table with that
  key (the last one, should the list hold several).
\<close>

definition resolved :: "Store \<Rightarrow> string \<Rightarrow> Annotation option" where
  "resolved st u = List.find (\<lambda>a. url a = u) (rev (annots_coll st))"

section \<open>Dates\<close>

text \<open>
  Times are epoch milliseconds. With a constant offset of local time, \<open>moment\<close>'s
  \<open>startOf('day')\<close> and \<open>endOf('day')\<close> are the first and the last millisecond of the local
  calendar day, \<open>a.diff(b, 'days')\<close> is the difference in whole days truncated towards
  zero, and \<open>subtract(n, 'days')\<close> moves back by \<open>n\<close> times 24 hours.
\<close>

definition day_ms :: int where
  "day_ms = 86400000"

definition startOfDay :: "Env \<Rightarrow> int \<Rightarrow> int" where
  "startOfDay env t = t - (t + utcOffset env) mod day_ms"

definition endOfDay :: "Env \<Rightarrow> int \<Rightarrow> int" where
  "endOfDay env t = startOfDay env t + day_ms - 1"

definition diffDays :: "int \<Rightarrow> int \<Rightarrow> int" where
  "diffDays a b = (if b \<le> a then (a - b) div day_ms else - ((b - a) div day_ms))"

text \<open>\<open>moment('2018-06-01')\<close>: local midnight of the first of June 2018.\<close>

definition annotsReleaseDate :: "Env \<Rightarrow> int" where
  "annotsReleaseDate env = 1527811200000 - utcOffset env"

text \<open>
  \<open>moment(installTime)\<close> and \<open>isAfter(installTime)\<close> read an absent installation time as
  the current time.
\<close>

definition calcHardLowerTimeBound :: "Env \<Rightarrow> AnnotSearchParams \<Rightarrow> int" where
  "calcHardLowerTimeBound env params =
    (let annotsRelease = or_default (startDate params) (annotsReleaseDate env);
         installed = (case installTime env of None \<Rightarrow> now env | Some t \<Rightarrow> t)
     in if installed < annotsRelease then annotsRelease else installed)"

section \<open>Clustering by day and page\<close>

type_synonym pages = "(string \<times> Annotation list) list"
type_synonym days = "(int \<times> pages) list"

definition mergeResults :: "days \<Rightarrow> days \<Rightarrow> days" where
  "mergeResults a b =
    foldl (\<lambda>a (date, pagesB).
        let pagesA = get_or_empty a date;
            pagesA' = foldl (\<lambda>pagesA (page, annotsB).
                          let existing = get_or_empty pagesA page
                          in map_set pagesA page (existing @ annotsB)) pagesA pagesB
        in map_set a date pagesA') a b"

text \<open>
  \<open>annots.sort((a, b) => b.lastEdited.getTime() - a.lastEdited.getTime())\<close> is a stable
  sort (ECMAScript 2019) into descending edit time.
\<close>

definition clusterAnnotsByDays :: "Env \<Rightarrow> Annotation list \<Rightarrow> (int \<times> Annotation list) list" where
  "clusterAnnotsByDays env annots =
    foldl (\<lambda>annotsByDays annot.
        let date = startOfDay env (lastEdited annot);
            existing = get_or_empty annotsByDays date
        in map_set annotsByDays date (existing @ [annot]))
      [] (sort_key (\<lambda>a. - lastEdited a) annots)"

definition clusterAnnotsByPage :: "Env \<Rightarrow> Annotation list \<Rightarrow> days" where
  "clusterAnnotsByPage env annots =
    foldl (\<lambda>annotsByPage (date, matching).
        let pageMap = foldl (\<lambda>pageMap annot.
                          let existing = get_or_empty pageMap (pageUrl annot)
                          in map_set pageMap (pageUrl annot) (existing @ [annot])) [] matching
        in map_set annotsByPage date pageMap)
      [] (clusterAnnotsByDays env annots)"

section \<open>Listing by day\<close>

text \<open>
  The keys of the \<open>lastEdited\<close> index are \<open>Date\<close> values. An endpoint of a key range is
  a number or a \<open>Date\<close>, and IndexedDB orders keys by type first: every number is below
  every \<open>Date\<close>; two keys of one type compare by value.
\<close>

datatype idb_key = NumKey int | DateKey int

fun key_le :: "idb_key \<Rightarrow> idb_key \<Rightarrow> bool" where
  "key_le (NumKey a) (NumKey b) = (a \<le> b)"
| "key_le (NumKey a) (DateKey b) = True"
| "key_le (DateKey a) (NumKey b) = False"
| "key_le (DateKey a) (DateKey b) = (a \<le> b)"

text \<open>
  \<open>where('lastEdited').between(startDate, endDate, true, true).reverse().toArray()\<close>:
  the rows whose key lies in the closed range, walked in descending order of the index.
  The parameters \<open>startDate\<close> and \<open>endDate\<close> of the source are \<open>lowerKey\<close> and \<open>upperKey\<close>.
\<close>

definition queryAnnotsByDay :: "Store \<Rightarrow> idb_key \<Rightarrow> idb_key \<Rightarrow> Annotation list" where
  "queryAnnotsByDay st lowerKey upperKey =
    rev (sort_key lastEdited
          (filter (\<lambda>a. key_le lowerKey (DateKey (lastEdited a)) \<and>
                       key_le (DateKey (lastEdited a)) upperKey)
             (annots_coll st)))"

text \<open>
  The \<open>while\<close> loop of \<open>listAnnotsByDay\<close>. It calls
  \<open>queryAnnotsByDay(dateCursor.valueOf(), upperBound.toDate())\<close>: the lower endpoint is a
  number, the upper one a \<open>Date\<close>. Beside the result map it returns the log of these calls,
  one pair (lower endpoint, upper endpoint) of times for each iteration, in order. Once
  \<open>dateCursor\<close> is set to \<open>hardLowerLimit\<close> the loop test fails.
\<close>

function dayLoop ::
  "Store \<Rightarrow> Env \<Rightarrow> AnnotSearchParams \<Rightarrow> nat \<Rightarrow> int \<Rightarrow> int \<Rightarrow> days \<Rightarrow> (int \<times> int) list
     \<Rightarrow> days \<times> (int \<times> int) list" where
  "dayLoop st env params lim hardLowerLimit dateCursor results queries =
    (if length results < lim \<and> hardLowerLimit < dateCursor then
       let upperBound = dateCursor;
           dateCursor' = (if diffDays dateCursor hardLowerLimit < int lim
                          then hardLowerLimit
                          else dateCursor - int lim * day_ms);
           annots = queryAnnotsByDay st (NumKey dateCursor') (DateKey upperBound);
           filteredPks = set (filterResults st (map url annots) params);
           annots' = filter (\<lambda>annot. url annot \<in> filteredPks) annots
       in dayLoop st env params lim hardLowerLimit dateCursor'
            (mergeResults results (clusterAnnotsByPage env annots'))
            (queries @ [(dateCursor', upperBound)])
     else (results, queries))"
  by pat_completeness auto
termination
  by (relation "measure (\<lambda>(st, env, params, lim, hardLowerLimit, dateCursor, results, queries).
        nat (dateCursor - hardLowerLimit))")
     (auto simp: day_ms_def)

declare dayLoop.simps [simp del]

text \<open>\<open>params.endDate ? moment(params.endDate) : moment().endOf('day')\<close>\<close>

definition initialDateCursor :: "Env \<Rightarrow> AnnotSearchParams \<Rightarrow> int" where
  "initialDateCursor env params =
    (case endDate params of
       None \<Rightarrow> endOfDay env (now env)
     | Some e \<Rightarrow> if e \<noteq> 0 then e else endOfDay env (now env))"

text \<open>
  \<open>listAnnotsByDay\<close> with its log of range queries. With \<open>limit\<close> undefined both
  comparisons with it are false; with \<open>skip\<close> undefined the final \<open>slice\<close> is
  \<open>slice(undefined, NaN)\<close>, which is empty.
\<close>

definition listAnnotsByDay_run ::
  "Store \<Rightarrow> Env \<Rightarrow> AnnotSearchParams \<Rightarrow> days \<times> (int \<times> int) list" where
  "listAnnotsByDay_run st env params =
    (let hardLowerLimit = calcHardLowerTimeBound env params;
         dateCursor = initialDateCursor env params
     in case limit params of
          None \<Rightarrow> ([], [])
        | Some lim \<Rightarrow>
            let (results, queries) = dayLoop st env params lim hardLowerLimit dateCursor [] []
            in if lim < length results
               then (case skip params of
                       None \<Rightarrow> ([], queries)
                     | Some sk \<Rightarrow> (slice results sk (sk + lim), queries))
               else (results, queries))"

definition listAnnotsByDay :: "Store \<Rightarrow> Env \<Rightarrow> AnnotSearchParams \<Rightarrow> days" where
  "listAnnotsByDay st env params = fst (listAnnotsByDay_run st env params)"

definition listAnnotsByDay_queries :: "Store \<Rightarrow> Env \<Rightarrow> AnnotSearchParams \<Rightarrow> (int \<times> int) list" where
  "listAnnotsByDay_queries st env params = snd (listAnnotsByDay_run st env params)"

section \<open>Term search\<close>

datatype field = Body_terms | Comment_terms

definition field_terms :: "field \<Rightarrow> Annotation \<Rightarrow> string list" where
  "field_terms f a = (case f of Body_terms \<Rightarrow> body_terms a | Comment_terms \<Rightarrow> comment_terms a)"

text \<open>\<open>[...new Set(xs)]\<close>: the elements of \<open>xs\<close> in the order of their first occurrence.\<close>

definition uniq :: "'a list \<Rightarrow> 'a list" where
  "uniq xs = rev (remdups (rev xs))"

text \<open>
  \<open>where(field).equals(term)\<close> on a multi-entry index of terms, filtered by the date window
  when one of its ends is given, then \<open>primaryKeys()\<close>.
\<close>

definition queryTermsField ::
  "Store \<Rightarrow> Env \<Rightarrow> field \<Rightarrow> string \<Rightarrow> AnnotSearchParams \<Rightarrow> string list" where
  "queryTermsField st env fld term params =
    (let coll = filter (\<lambda>annot. term \<in> set (field_terms fld annot)) (annots_coll st);
         coll' = (if truthy (startDate params) \<or> truthy (endDate params)
                  then filter (\<lambda>annot.
                         or_default (startDate params) 0 \<le> lastEdited annot \<and>
                         lastEdited annot \<le> or_default (endDate params) (now env)) coll
                  else coll)
     in map url coll')"

text \<open>
  \<open>reduce\<close> without an initial value throws a \<open>TypeError\<close> on an empty array.
\<close>

definition lookupTerms :: "Store \<Rightarrow> Env \<Rightarrow> AnnotSearchParams \<Rightarrow> error + string list" where
  "lookupTerms st env params =
    (let fields = (if includeHighlights params then [Body_terms] else []) @
                  (if includeNotes params then [Comment_terms] else []);
         results = foldl (\<lambda>results term.
                       let termRes = map (\<lambda>fld. queryTermsField st env fld term params) fields
                       in map_set results term (uniq (concat termRes)))
                     [] (termsInc params)
     in case map snd results of
          [] \<Rightarrow> Inl ReduceOfEmptyArray
        | a # rest \<Rightarrow> Inr (foldl (\<lambda>a b. filter (\<lambda>res. res \<in> set b) a) a rest))"

section \<open>Pagination of term search results\<close>

text \<open>
  The body of \<open>annots.forEach\<close> in \<open>paginateAnnotsResults\<close>, on the pair
  (\<open>annotsByPage\<close>, \<open>seenPages\<close>). \<open>seenPages\<close> is a \<open>Set\<close>, kept as the list of its elements.
  Reading \<open>pageUrl\<close> of a hole throws. A comparison with an undefined \<open>skip\<close> is false.
\<close>

definition paginateStep ::
  "nat \<Rightarrow> nat option \<Rightarrow> pages \<times> string list \<Rightarrow> Annotation option
     \<Rightarrow> error + pages \<times> string list" where
  "paginateStep lim sk state annot =
    (case annot of
       None \<Rightarrow> Inl PropertyOfUndefined
     | Some an \<Rightarrow>
         let (annotsByPage, seenPages) = state;
             seenPages' = (if pageUrl an \<in> set seenPages then seenPages
                           else seenPages @ [pageUrl an]);
             prev = get_or_empty annotsByPage (pageUrl an)
         in if length annotsByPage \<noteq> lim \<and>
               (case sk of None \<Rightarrow> False | Some s \<Rightarrow> s < length seenPages')
            then Inr (map_set annotsByPage (pageUrl an) (prev @ [an]), seenPages')
            else Inr (annotsByPage, seenPages'))"

fun paginateForEach ::
  "nat \<Rightarrow> nat option \<Rightarrow> pages \<times> string list \<Rightarrow> Annotation option list
     \<Rightarrow> error + pages \<times> string list" where
  "paginateForEach lim sk state [] = Inr state"
| "paginateForEach lim sk state (annot # annots) =
    (case paginateStep lim sk state annot of
       Inl e \<Rightarrow> Inl e
     | Inr state' \<Rightarrow> paginateForEach lim sk state' annots)"

function paginateLoop ::
  "Store \<Rightarrow> string list \<Rightarrow> nat \<Rightarrow> nat option \<Rightarrow> pages \<Rightarrow> string list \<Rightarrow> nat \<Rightarrow> error + pages" where
  "paginateLoop st results lim sk annotsByPage seenPages internalSkip =
    (if length annotsByPage < lim then
       let internalPageSize = lim * 2;
           resSlice = slice results internalSkip (internalSkip + internalPageSize)
       in if resSlice = [] then Inr annotsByPage
          else (case paginateForEach lim sk (annotsByPage, seenPages) (mapUrlsToAnnots st resSlice) of
                  Inl e \<Rightarrow> Inl e
                | Inr (annotsByPage', seenPages') \<Rightarrow>
                    paginateLoop st results lim sk annotsByPage' seenPages'
                      (internalSkip + internalPageSize))
     else Inr annotsByPage)"
  by pat_completeness auto
termination
  by (relation "measure (\<lambda>(st, results, lim, sk, annotsByPage, seenPages, internalSkip).
        length results - internalSkip)")
     (auto simp: slice_def)

declare paginateLoop.simps [simp del]

text \<open>With \<open>limit\<close> undefined the loop test \<open>annotsByPage.size < limit\<close> is false at once.\<close>

definition paginateAnnotsResults ::
  "Store \<Rightarrow> string list \<Rightarrow> AnnotSearchParams \<Rightarrow> error + pages" where
  "paginateAnnotsResults st results params =
    (case limit params of
       None \<Rightarrow> Inr []
     | Some lim \<Rightarrow> paginateLoop st results lim (skip params) [] [] 0)"

definition searchAnnots :: "Store \<Rightarrow> Env \<Rightarrow> AnnotSearchParams \<Rightarrow> error + pages" where
  "searchAnnots st env params =
    (case lookupTerms st env params of
       Inl e \<Rightarrow> Inl e
     | Inr termsSearchResults \<Rightarrow>
         let filteredResults = filterResults st termsSearchResults params
         in paginateAnnotsResults st filteredResults params)"

section \<open>Listing by page\<close>

text \<open>
  \<open>where('pageUrl').equals(url)\<close>, filtered by the date window when one of its ends is
  given; an absent or empty \<open>url\<close> throws.
\<close>

definition listWithUrl :: "Store \<Rightarrow> Env \<Rightarrow> AnnotSearchParams \<Rightarrow> error + Annotation list" where
  "listWithUrl st env params =
    (case p_url params of
       None \<Rightarrow> Inl UrlMissing
     | Some u \<Rightarrow>
         if u = [] then Inl UrlMissing
         else
           let coll = filter (\<lambda>annot. pageUrl annot = u) (annots_coll st)
           in if \<not> truthy (startDate params) \<and> \<not> truthy (endDate params) then Inr coll
              else
                let startDate' = or_default (startDate params) 0;
                    endDate' = or_default (endDate params) (now env)
                in Inr (filter (\<lambda>annot. startDate' \<le> lastEdited annot \<and> lastEdited annot \<le> endDate')
                          coll))"

definition DEF_INNER_LIMIT_MULTI :: nat where
  "DEF_INNER_LIMIT_MULTI = 2"

text \<open>
  The \<open>do ... while (continueLookup)\<close> loop of \<open>listAnnotsByPage\<close>. Every iteration issues
  the same query \<open>listWithUrl(params).limit(innerLimit).primaryKeys()\<close>. The loop may not
  return: the result is an option, \<open>None\<close> when it runs forever.
\<close>

partial_function (option) pageLoop ::
  "Store \<Rightarrow> Env \<Rightarrow> AnnotSearchParams \<Rightarrow> nat \<Rightarrow> string list \<Rightarrow> (error + string list) option" where
  "pageLoop st env params innerLimit results =
    (case listWithUrl st env params of
       Inl e \<Rightarrow> Some (Inl e)
     | Inr coll \<Rightarrow>
         let innerResults = map url (take innerLimit coll);
             continueLookup = (innerLimit \<le> length innerResults);
             innerResults' = filterResults st innerResults params;
             results' = results @ innerResults'
         in if continueLookup then pageLoop st env params innerLimit results'
            else Some (Inr results'))"

text \<open>
  The defaults of \<open>listAnnotsByPage\<close>: \<open>limit = 10\<close>, \<open>skip = 0\<close> and
  \<open>innerLimitMultiplier = DEF_INNER_LIMIT_MULTI\<close>.
\<close>

definition limitOrDefault :: "AnnotSearchParams \<Rightarrow> nat" where
  "limitOrDefault params = (case limit params of None \<Rightarrow> 10 | Some l \<Rightarrow> l)"

definition skipOrDefault :: "AnnotSearchParams \<Rightarrow> nat" where
  "skipOrDefault params = (case skip params of None \<Rightarrow> 0 | Some s \<Rightarrow> s)"

definition multiOrDefault :: "nat option \<Rightarrow> nat" where
  "multiOrDefault innerLimitMultiplier =
    (case innerLimitMultiplier of None \<Rightarrow> DEF_INNER_LIMIT_MULTI | Some m \<Rightarrow> m)"

definition listAnnotsByPage ::
  "Store \<Rightarrow> Env \<Rightarrow> AnnotSearchParams \<Rightarrow> nat option \<Rightarrow> (error + Annotation option list) option" where
  "listAnnotsByPage st env params innerLimitMultiplier =
    (let lim = limitOrDefault params;
         sk = skipOrDefault params;
         innerLimit = lim * multiOrDefault innerLimitMultiplier
     in case pageLoop st env params innerLimit [] of
          None \<Rightarrow> None
        | Some (Inl e) \<Rightarrow> Some (Inl e)
        | Some (Inr results) \<Rightarrow>
            Some (Inr (mapUrlsToAnnots st
                         (if lim < length results then slice results sk (sk + lim) else results))))"

section \<open>Specification predicates and sample data\<close>

text \<open>
  A tag name survives the two steps of the tag filter when it is not excluded and, if
  inclusion is requested, it is included. A key has a surviving tag when the tag table
  holds such a name for it.
\<close>

definition tagSurvives :: "AnnotSearchParams \<Rightarrow> string \<Rightarrow> bool" where
  "tagSurvives params name =
    (name \<notin> set (opt_items (tagsExc params)) \<and>
     (has_items (tagsInc params) \<longrightarrow> name \<in> set (opt_items (tagsInc params))))"

definition hasSurvivingTag :: "Store \<Rightarrow> AnnotSearchParams \<Rightarrow> string \<Rightarrow> bool" where
  "hasSurvivingTag st params u =
    (\<exists>(name, u') \<in> set (tags_coll st). u' = u \<and> tagSurvives params name)"

text \<open>A key is in a requested collection when one of its list entries names a list whose
  name is requested.\<close>

definition inTriggeredCollection :: "Store \<Rightarrow> AnnotSearchParams \<Rightarrow> string \<Rightarrow> bool" where
  "inTriggeredCollection st params u =
    (\<exists>(listId, u') \<in> set (list_entries_coll st). u' = u \<and>
       (\<exists>(i, name) \<in> set (lists_coll st). i = listId \<and> name \<in> set (opt_items (collections params))))"

text \<open>
  The fields a term search looks at, the date window of a term query, and what the term
  search is to return: the annotations, inside the window, whose enabled fields together
  contain every required term.
\<close>

definition enabledFields :: "AnnotSearchParams \<Rightarrow> field list" where
  "enabledFields params = (if includeHighlights params then [Body_terms] else []) @
                          (if includeNotes params then [Comment_terms] else [])"

definition inDateWindow :: "Env \<Rightarrow> AnnotSearchParams \<Rightarrow> Annotation \<Rightarrow> bool" where
  "inDateWindow env params a =
    (truthy (startDate params) \<or> truthy (endDate params) \<longrightarrow>
       or_default (startDate params) 0 \<le> lastEdited a \<and>
       lastEdited a \<le> or_default (endDate params) (now env))"

definition fieldsContain :: "AnnotSearchParams \<Rightarrow> Annotation \<Rightarrow> string \<Rightarrow> bool" where
  "fieldsContain params a t =
    ((includeHighlights params \<and> t \<in> set (body_terms a)) \<or>
     (includeNotes params \<and> t \<in> set (comment_terms a)))"

definition matchesAllTerms :: "AnnotSearchParams \<Rightarrow> Annotation \<Rightarrow> bool" where
  "matchesAllTerms params a = (\<forall>t \<in> set (termsInc params). fieldsContain params a t)"

text \<open>
  The grouping loop shared by \<open>clusterAnnotsByDays\<close> and \<open>clusterAnnotsByPage\<close>, the local
  day of an annotation, and the (day, page) buckets of a clustered result in their order.
\<close>

definition groupBy :: "('a \<Rightarrow> 'k) \<Rightarrow> ('k \<times> 'a list) list \<Rightarrow> 'a list \<Rightarrow> ('k \<times> 'a list) list" where
  "groupBy kf m0 xs = foldl (\<lambda>m a. map_set m (kf a) (get_or_empty m (kf a) @ [a])) m0 xs"

definition dayOf :: "Env \<Rightarrow> Annotation \<Rightarrow> int" where
  "dayOf env a = startOfDay env (lastEdited a)"

definition buckets :: "days \<Rightarrow> ((int \<times> string) \<times> Annotation list) list" where
  "buckets r = concat (map (\<lambda>(d, pageMap). map (\<lambda>(p, annots). ((d, p), annots)) pageMap) r)"

definition annot1 :: Annotation where
  "annot1 = \<lparr>url = ''a1'', pageUrl = ''p'', lastEdited = 1600000000000,
             body_terms = [''alpha''], comment_terms = [''beta'']\<rparr>"

definition annot2 :: Annotation where
  "annot2 = \<lparr>url = ''a2'', pageUrl = ''p'', lastEdited = 1600000500000,
             body_terms = [''alpha'', ''beta''], comment_terms = []\<rparr>"

definition annot3 :: Annotation where
  "annot3 = \<lparr>url = ''a3'', pageUrl = ''q'', lastEdited = 1600100000000,
             body_terms = [''gamma''], comment_terms = [''alpha'']\<rparr>"

definition sample_store :: Store where
  "sample_store = \<lparr>annots_coll = [annot1, annot2, annot3], bms_coll = [''a1''],
                    tags_coll = [(''x'', ''a1''), (''y'', ''a2'')],
                    lists_coll = [(1, ''L'')], list_entries_coll = [(1, ''a2'')]\<rparr>"

definition sample_env :: Env where
  "sample_env = \<lparr>now = 1600200000000, installTime = Some 1599900000000, utcOffset = 0\<rparr>"

definition plain_params :: AnnotSearchParams where
  "plain_params = \<lparr>termsInc = [], includeHighlights = False, includeNotes = False,
                    startDate = None, endDate = None, bookmarksOnly = False,
                    tagsInc = None, tagsExc = None, collections = None,
                    limit = None, skip = None, p_url = None\<rparr>"

definition tag_params :: AnnotSearchParams where
  "tag_params = plain_params\<lparr>tagsInc := Some [''x'', ''y''], tagsExc := Some [''x'']\<rparr>"

definition split_terms_params :: AnnotSearchParams where
  "split_terms_params = plain_params\<lparr>termsInc := [''alpha'', ''beta''],
                          includeHighlights := True, includeNotes := True\<rparr>"

definition no_fields_params :: AnnotSearchParams where
  "no_fields_params = plain_params\<lparr>termsInc := [''alpha'', ''beta'']\<rparr>"

definition page_params :: AnnotSearchParams where
  "page_params = plain_params\<lparr>p_url := Some ''p''\<rparr>"

definition one_params :: AnnotSearchParams where
  "one_params = page_params\<lparr>limit := Some 1\<rparr>"

definition skip_params :: AnnotSearchParams where
  "skip_params = page_params\<lparr>limit := Some 2, skip := Some 1\<rparr>"

definition day_params :: AnnotSearchParams where
  "day_params = plain_params\<lparr>limit := Some 2, skip := Some 0\<rparr>"

definition three_days_params :: AnnotSearchParams where
  "three_days_params = plain_params\<lparr>limit := Some 3, skip := Some 0\<rparr>"

section \<open>Properties\<close>

subsection \<open>JavaScript maps\<close>

lemma map_of_map_set: "map_of (map_set m k v) = (map_of m)(k \<mapsto> v)"
  by (induction m) (auto simp: fun_eq_iff)

lemma map_get_map_set: "map_get (map_set m k v) k' = (if k' = k then Some v else map_get m k')"
  by (simp add: map_get_def map_of_map_set)

lemma keys_map_set:
  "map fst (map_set m k v) = (if k \<in> fst ` set m then map fst m else map fst m @ [k])"
  by (induction m) force+

lemma distinct_map_set: "distinct (map fst m) \<Longrightarrow> distinct (map fst (map_set m k v))"
  by (simp add: keys_map_set)

subsection \<open>Result assembly\<close>

lemma find_filter_imp: "(\<And>a. P a \<Longrightarrow> Q a) \<Longrightarrow> List.find P (filter Q xs) = List.find P xs"
  by (induction xs) auto

lemma find_snoc:
  "List.find P (xs @ [x]) =
     (case List.find P xs of None \<Rightarrow> (if P x then Some x else None) | Some y \<Rightarrow> Some y)"
  by (induction xs) auto

lemma map_get_foldl_set:
  "map_get (foldl (\<lambda>m a. map_set m (url a) a) m0 xs) u =
     (case List.find (\<lambda>a. url a = u) (rev xs) of None \<Rightarrow> map_get m0 u | Some a \<Rightarrow> Some a)"
  by (induction xs arbitrary: m0) (auto simp: find_snoc map_get_map_set split: option.splits)

lemma mapUrlsToAnnots_resolved: "mapUrlsToAnnots st urls = map (resolved st) urls"
proof -
  have "map_get (foldl (\<lambda>m a. map_set m (url a) a) []
          (filter (\<lambda>a. url a \<in> set urls) (annots_coll st))) u = resolved st u"
    if "u \<in> set urls" for u
  proof -
    have "List.find (\<lambda>a. url a = u) (rev (filter (\<lambda>a. url a \<in> set urls) (annots_coll st)))
        = List.find (\<lambda>a. url a = u) (rev (annots_coll st))"
      unfolding rev_filter using that by (intro find_filter_imp) simp
    then show ?thesis
      unfolding map_get_foldl_set resolved_def
      by (simp add: map_get_def split: option.splits)
  qed
  then show ?thesis
    by (simp add: mapUrlsToAnnots_def)
qed

text \<open>
  Claim C7. For every sequence of keys, duplicates included, and every store,
  \<open>mapUrlsToAnnots\<close> returns a sequence as long as its input whose i-th entry is the record
  the i-th key resolves to, and a hole (\<open>None\<close>) where the key resolves to no record; it
  raises no error (its result type has none).
\<close>

theorem mapUrlsToAnnots_order_preserved:
  "length (mapUrlsToAnnots st urls) = length urls \<and>
   mapUrlsToAnnots st urls = map (resolved st) urls \<and>
   (\<forall>i < length urls.
      mapUrlsToAnnots st urls ! i = resolved st (urls ! i) \<and>
      (mapUrlsToAnnots st urls ! i = None \<longleftrightarrow> urls ! i \<notin> url ` set (annots_coll st)))"
proof -
  have "resolved st u = None \<longleftrightarrow> u \<notin> url ` set (annots_coll st)" for u
    by (auto simp: resolved_def find_None_iff)
  then show ?thesis
    by (simp add: mapUrlsToAnnots_resolved)
qed

theorem mapUrlsToAnnots_order_preserved_witness:
  "mapUrlsToAnnots sample_store [''a2'', ''zz'', ''a1'', ''a2'']
     = [Some annot2, None, Some annot1, Some annot2]"
  using mapUrlsToAnnots_order_preserved [of sample_store "[''a2'', ''zz'', ''a1'', ''a2'']"]
  by (simp add: resolved_def sample_store_def annot1_def annot2_def annot3_def)

subsection \<open>Facet filters\<close>

lemma tagsExc_uniform:
  "(case e of None \<Rightarrow> t
    | Some exc \<Rightarrow> if exc \<noteq> [] then filter (\<lambda>(name, u). name \<notin> set exc) t else t)
   = filter (\<lambda>(name, u). name \<notin> set (opt_items e)) t"
  by (cases e) (simp_all add: opt_items_def)

lemma tagsInc_uniform:
  "(case i of None \<Rightarrow> t
    | Some inc \<Rightarrow> if inc \<noteq> [] then filter (\<lambda>(name, u). name \<in> set inc) t else t)
   = filter (\<lambda>(name, u). has_items i \<longrightarrow> name \<in> set (opt_items i)) t"
  by (cases i) (simp_all add: opt_items_def has_items_def)

lemma filterByTags_filter:
  "filterByTags st urls params = filter (hasSurvivingTag st params) urls"
proof -
  let ?kept = "filter (\<lambda>(name, u). has_items (tagsInc params) \<longrightarrow> name \<in> set (opt_items (tagsInc params)))
            (filter (\<lambda>(name, u). name \<notin> set (opt_items (tagsExc params)))
              (filter (\<lambda>(name, u). u \<in> set urls) (tags_coll st)))"
  have "(u \<in> set (map snd ?kept)) = hasSurvivingTag st params u" if "u \<in> set urls" for u
  proof
    assume "u \<in> set (map snd ?kept)"
    then obtain name where "(name, u) \<in> set (tags_coll st)" "tagSurvives params name"
      by (auto simp: tagSurvives_def)
    then show "hasSurvivingTag st params u"
      unfolding hasSurvivingTag_def by blast
  next
    assume "hasSurvivingTag st params u"
    then obtain name where n: "(name, u) \<in> set (tags_coll st)" "tagSurvives params name"
      unfolding hasSurvivingTag_def by blast
    then have "(name, u) \<in> set ?kept"
      using that by (simp add: tagSurvives_def)
    then show "u \<in> set (map snd ?kept)"
      unfolding set_map by (rule image_eqI[rotated]) simp
  qed
  then show ?thesis
    unfolding filterByTags_def Let_def tagsExc_uniform tagsInc_uniform
    by (intro filter_cong) simp_all
qed

lemma entries_char:
  fixes es :: "(nat \<times> string) list"
  shows "u \<in> set urls \<Longrightarrow>
    (u \<in> set (map snd (filter (\<lambda>(listId, u). listId \<in> L) (filter (\<lambda>(i, u). u \<in> set urls) es))))
      = (\<exists>(listId, u') \<in> set es. u' = u \<and> listId \<in> L)"
  by force

lemma lists_char:
  fixes ls :: "(nat \<times> string) list"
  shows "(listId \<in> set (map fst (filter (\<lambda>(i, name). name \<in> N) ls)))
      = (\<exists>(i, name) \<in> set ls. i = listId \<and> name \<in> N)"
  by force

lemma filterByCollections_filter:
  "filterByCollections st urls params = filter (inTriggeredCollection st params) urls"
  unfolding filterByCollections_def Let_def inTriggeredCollection_def
  by (intro filter_cong refl, subst entries_char, assumption) (simp only: lists_char)

lemma filterByBookmarks_idem:
  "filterByBookmarks st (filter Q (filterByBookmarks st r)) = filter Q (filterByBookmarks st r)"
  unfolding filterByBookmarks_def filter_filter
  by (rule filter_cong) auto

lemma filterResults_filter:
  "filterResults st r params =
     filter (\<lambda>u. (has_items (tagsInc params) \<or> has_items (tagsExc params) \<longrightarrow> hasSurvivingTag st params u)
               \<and> (has_items (collections params) \<longrightarrow> inTriggeredCollection st params u))
       (if bookmarksOnly params then filterByBookmarks st r else r)"
  unfolding filterResults_def Let_def filterByTags_filter filterByCollections_filter
  by (auto intro: filter_cong)

lemma filterResults_idem:
  "filterResults st (filterResults st r params) params = filterResults st r params"
proof (cases "bookmarksOnly params")
  case True
  show ?thesis
    unfolding filterResults_filter[of st r]
    unfolding filterResults_filter[of st "filter _ _"] using True
    by (simp add: filterByBookmarks_idem)
next
  case False
  then show ?thesis
    unfolding filterResults_filter[of st r]
    unfolding filterResults_filter[of st "filter _ _"]
    by simp
qed

text \<open>
  Claim C8. When \<open>tagsInc\<close> or \<open>tagsExc\<close> is non-empty, the tag filter keeps a candidate
  key exactly when the tag table holds for it a tag that survives both steps, exclusion
  first and then inclusion; so a name in \<open>tagsExc\<close> never survives, also when it is in
  \<open>tagsInc\<close>. With the other two facets off, this is what \<open>filterResults\<close> computes.
\<close>

theorem filterByTags_exclusion_then_inclusion:
  assumes "has_items (tagsInc params) \<or> has_items (tagsExc params)"
  shows "filterByTags st urls params = filter (hasSurvivingTag st params) urls \<and>
         (\<forall>name \<in> set (opt_items (tagsExc params)). \<not> tagSurvives params name) \<and>
         (\<not> bookmarksOnly params \<and> \<not> has_items (collections params) \<longrightarrow>
            filterResults st urls params = filter (hasSurvivingTag st params) urls)"
  using assms
  by (simp add: filterByTags_filter tagSurvives_def filterResults_def)

theorem filterByTags_exclusion_then_inclusion_witness:
  "(has_items (tagsInc tag_params) \<or> has_items (tagsExc tag_params)) \<and>
   filterByTags sample_store [''a1'', ''a2'', ''a3''] tag_params = [''a2''] \<and>
   \<not> tagSurvives tag_params ''x'' \<and>
   filterResults sample_store [''a1'', ''a2'', ''a3''] tag_params = [''a2'']"
  using filterByTags_exclusion_then_inclusion [of tag_params sample_store "[''a1'', ''a2'', ''a3'']"]
  by (simp add: tag_params_def plain_params_def sample_store_def has_items_def opt_items_def
        hasSurvivingTag_def tagSurvives_def)

text \<open>
  Claim C9. On a fixed store, filtering the output of \<open>filterResults\<close> again changes
  nothing, and the keys it returns are the intersection of what each triggered filter
  returns on the original candidates, a filter that is not triggered contributing the
  candidates themselves.
\<close>

theorem filterResults_idempotent_intersection:
  "filterResults st (filterResults st results params) params = filterResults st results params \<and>
   set (filterResults st results params) =
     (if bookmarksOnly params then set (filterByBookmarks st results) else set results) \<inter>
     (if has_items (tagsInc params) \<or> has_items (tagsExc params)
      then set (filterByTags st results params) else set results) \<inter>
     (if has_items (collections params)
      then set (filterByCollections st results params) else set results)"
proof -
  have "set (filterResults st results params) =
     (if bookmarksOnly params then set (filterByBookmarks st results) else set results) \<inter>
     (if has_items (tagsInc params) \<or> has_items (tagsExc params)
      then set (filterByTags st results params) else set results) \<inter>
     (if has_items (collections params)
      then set (filterByCollections st results params) else set results)"
    unfolding filterResults_filter filterByTags_filter filterByCollections_filter
    by (auto simp: filterByBookmarks_def)
  then show ?thesis
    using filterResults_idem by blast
qed


subsection \<open>Term search\<close>

lemma set_uniq: "set (uniq xs) = set xs"
  by (simp add: uniq_def)

lemma distinct_uniq: "distinct (uniq xs)"
  by (simp add: uniq_def)

lemma set_map_set:
  "distinct (map fst m) \<Longrightarrow> set (map_set m k v) = {p \<in> set m. fst p \<noteq> k} \<union> {(k, v)}"
proof (induction m)
  case Nil
  then show ?case by simp
next
  case (Cons p m)
  obtain k' v' where p: "p = (k', v')" by (cases p)
  show ?case
  proof (cases "k' = k")
    case True
    then have "k \<notin> fst ` set m" using Cons.prems p by auto
    then have "{q \<in> set ((k, v') # m). fst q \<noteq> k} = set m" by force
    then show ?thesis using True p by (simp del: set_simps add: list.set insert_commute)
  next
    case False
    have "set (map_set m k v) = {p \<in> set m. fst p \<noteq> k} \<union> {(k, v)}"
      using Cons by simp
    moreover have "{q \<in> set ((k', v') # m). fst q \<noteq> k} = insert (k', v') {p \<in> set m. fst p \<noteq> k}"
      using False by auto
    ultimately show ?thesis using False p by (simp del: set_simps add: list.set insert_commute)
  qed
qed

lemma foldl_map_set_graph:
  "distinct (map fst m0) \<Longrightarrow> (\<forall>(k, v) \<in> set m0. v = R k) \<Longrightarrow>
     distinct (map fst (foldl (\<lambda>m t. map_set m t (R t)) m0 ts)) \<and>
     set (foldl (\<lambda>m t. map_set m t (R t)) m0 ts) = (\<lambda>k. (k, R k)) ` (fst ` set m0 \<union> set ts)"
proof (induction ts arbitrary: m0)
  case Nil
  then show ?case by force
next
  case (Cons t ts)
  have d: "distinct (map fst (map_set m0 t (R t)))"
    using Cons.prems(1) by (rule distinct_map_set)
  have g: "\<forall>(k, v) \<in> set (map_set m0 t (R t)). v = R k"
    using Cons.prems by (auto simp: set_map_set)
  have "fst ` set (map_set m0 t (R t)) = insert t (fst ` set m0)"
    using Cons.prems(1) by (force simp: set_map_set)
  with Cons.IH[OF d g] show ?case by simp
qed

lemma set_foldl_inter:
  "set (foldl (\<lambda>a b. filter (\<lambda>res. res \<in> set b) a) a rest) = set a \<inter> (\<Inter>b \<in> set rest. set b)"
  by (induction rest arbitrary: a) auto

lemma distinct_foldl_inter:
  "distinct a \<Longrightarrow> distinct (foldl (\<lambda>a b. filter (\<lambda>res. res \<in> set b) a) a rest)"
  by (induction rest arbitrary: a) auto

lemma set_queryTermsField:
  "set (queryTermsField st env fld t params) =
     url ` {a \<in> set (annots_coll st). t \<in> set (field_terms fld a) \<and> inDateWindow env params a}"
  by (auto simp: queryTermsField_def inDateWindow_def Let_def)

lemma lookupTerms_fields: "lookupTerms st env params =
   (case map snd (foldl (\<lambda>results term. map_set results term
          (uniq (concat (map (\<lambda>fld. queryTermsField st env fld term params) (enabledFields params)))))
                     [] (termsInc params)) of
          [] \<Rightarrow> Inl ReduceOfEmptyArray
        | a # rest \<Rightarrow> Inr (foldl (\<lambda>a b. filter (\<lambda>res. res \<in> set b) a) a rest))"
  by (simp add: lookupTerms_def enabledFields_def Let_def)

lemma set_termRes:
  "set (uniq (concat (map (\<lambda>fld. queryTermsField st env fld t params) (enabledFields params))))
    = url ` {a \<in> set (annots_coll st). fieldsContain params a t \<and> inDateWindow env params a}"
  by (auto simp: set_uniq set_queryTermsField enabledFields_def fieldsContain_def field_terms_def)

lemma lookupTerms_keys:
  assumes "termsInc params \<noteq> []"
  obtains keys where "lookupTerms st env params = Inr keys" and "distinct keys" and
           "set keys = (\<Inter>t \<in> set (termsInc params).
              url ` {a \<in> set (annots_coll st). fieldsContain params a t \<and> inDateWindow env params a})"
proof -
  define R where "R t = uniq (concat (map (\<lambda>fld. queryTermsField st env fld t params) (enabledFields params)))" for t
  define results where "results = foldl (\<lambda>m t. map_set m t (R t)) [] (termsInc params)"
  have G: "distinct (map fst results)" "set results = (\<lambda>k. (k, R k)) ` set (termsInc params)"
    using foldl_map_set_graph[of "[]" R "termsInc params"] by (simp_all add: results_def)
  have vals: "set (map snd results) = R ` set (termsInc params)"
    using G(2) by (force simp: image_iff)
  have ne: "map snd results \<noteq> []"
    using G(2) assms by auto
  then obtain a rest where ar: "map snd results = a # rest"
    by (cases "map snd results") auto
  have lk: "lookupTerms st env params = Inr (foldl (\<lambda>a b. filter (\<lambda>res. res \<in> set b) a) a rest)"
    unfolding lookupTerms_fields using ar by (simp add: results_def R_def)
  have "a \<in> R ` set (termsInc params)"
    using vals ar by (metis list.set_intros(1))
  then have da: "distinct a"
    by (auto simp: R_def distinct_uniq)
  have "set a \<inter> (\<Inter>b \<in> set rest. set b) = (\<Inter>b \<in> set (a # rest). set b)"
    by auto
  also have "\<dots> = (\<Inter>t \<in> set (termsInc params). set (R t))"
    unfolding ar[symmetric] vals by auto
  finally have "set (foldl (\<lambda>a b. filter (\<lambda>res. res \<in> set b) a) a rest)
      = (\<Inter>t \<in> set (termsInc params). set (R t))"
    by (simp add: set_foldl_inter)
  then have "set (foldl (\<lambda>a b. filter (\<lambda>res. res \<in> set b) a) a rest)
      = (\<Inter>t \<in> set (termsInc params).
              url ` {a \<in> set (annots_coll st). fieldsContain params a t \<and> inDateWindow env params a})"
    by (simp add: R_def set_termRes)
  with lk distinct_foldl_inter[OF da] show ?thesis
    by (rule that)
qed


text \<open>
  Claim C4. For a non-empty list of terms, any selection of fields and any store (its
  annotation keys unique), \<open>lookupTerms\<close> returns, without duplicates, exactly the keys of
  the annotations whose enabled fields together contain every term (and which lie in the
  date window, when the query has one): a key is returned also when its terms are spread
  over the highlight and the note.
\<close>

theorem lookupTerms_exact_keys:
  assumes "termsInc params \<noteq> []" and "distinct (map url (annots_coll st))"
  shows "\<exists>keys. lookupTerms st env params = Inr keys \<and> distinct keys \<and>
           set keys = url ` {a \<in> set (annots_coll st). matchesAllTerms params a \<and> inDateWindow env params a}"
proof -
  obtain keys where k: "lookupTerms st env params = Inr keys" "distinct keys"
     "set keys = (\<Inter>t \<in> set (termsInc params).
              url ` {a \<in> set (annots_coll st). fieldsContain params a t \<and> inDateWindow env params a})"
    using assms(1) by (rule lookupTerms_keys)
  have inj: "inj_on url (set (annots_coll st))"
    using assms(2) by (simp add: distinct_map)
  obtain t0 where t0: "t0 \<in> set (termsInc params)"
    using assms(1) by (cases "termsInc params") auto
  have "(\<Inter>t \<in> set (termsInc params).
              url ` {a \<in> set (annots_coll st). fieldsContain params a t \<and> inDateWindow env params a})
      = url ` {a \<in> set (annots_coll st). matchesAllTerms params a \<and> inDateWindow env params a}"
    (is "?L = ?R")
  proof (intro set_eqI iffI)
    fix k assume kL: "k \<in> ?L"
    then have "k \<in> url ` {a \<in> set (annots_coll st). fieldsContain params a t0 \<and> inDateWindow env params a}"
      using t0 by blast
    then obtain a where a: "a \<in> set (annots_coll st)" "url a = k" "inDateWindow env params a"
      by blast
    have "fieldsContain params a t" if "t \<in> set (termsInc params)" for t
    proof -
      from kL that have "k \<in> url ` {a \<in> set (annots_coll st). fieldsContain params a t \<and> inDateWindow env params a}"
        by blast
      then obtain b where "b \<in> set (annots_coll st)" "url b = k" "fieldsContain params b t"
        by blast
      with a inj have "b = a" by (auto dest: inj_onD)
      with \<open>fieldsContain params b t\<close> show ?thesis by simp
    qed
    then have "matchesAllTerms params a" unfolding matchesAllTerms_def by blast
    with a show "k \<in> ?R" by blast
  next
    fix k assume "k \<in> ?R"
    then obtain a where "a \<in> set (annots_coll st)" "url a = k" "matchesAllTerms params a" "inDateWindow env params a"
      by blast
    then show "k \<in> ?L" unfolding matchesAllTerms_def by blast
  qed
  with k show ?thesis by simp
qed



theorem lookupTerms_exact_keys_witness:
  "termsInc split_terms_params \<noteq> [] \<and> distinct (map url (annots_coll sample_store)) \<and>
   lookupTerms sample_store sample_env split_terms_params = Inr [''a1'', ''a2''] \<and>
   {''a1'', ''a2''} = url ` {a \<in> set (annots_coll sample_store).
       matchesAllTerms split_terms_params a \<and> inDateWindow sample_env split_terms_params a}"
proof -
  have h1: "termsInc split_terms_params \<noteq> []"
    by (simp add: split_terms_params_def plain_params_def)
  have h2: "distinct (map url (annots_coll sample_store))"
    by (simp add: sample_store_def annot1_def annot2_def annot3_def)
  have v: "lookupTerms sample_store sample_env split_terms_params = Inr [''a1'', ''a2'']"
    by (simp add: lookupTerms_def split_terms_params_def plain_params_def sample_store_def
          annot1_def annot2_def annot3_def queryTermsField_def field_terms_def truthy_def uniq_def)
  from lookupTerms_exact_keys [OF h1 h2, of sample_env] v h1 h2 show ?thesis
    by auto
qed

lemma filterResults_Nil: "filterResults st [] params = []"
  by (simp add: filterResults_filter filterByBookmarks_def)

lemma paginateAnnotsResults_Nil: "paginateAnnotsResults st [] params = Inr []"
  unfolding paginateAnnotsResults_def
  by (subst paginateLoop.simps) (simp add: slice_def split: option.splits)

text \<open>
  Claim C10. With an empty \<open>termsInc\<close>, whatever fields are enabled, \<open>lookupTerms\<close> throws
  (the \<open>reduce\<close> over no per-term results has no initial element), and so does
  \<open>searchAnnots\<close>.
\<close>

theorem lookupTerms_empty_terms_throws:
  assumes "termsInc params = []"
  shows "lookupTerms st env params = Inl ReduceOfEmptyArray \<and> searchAnnots st env params = Inl ReduceOfEmptyArray"
  using assms by (simp add: lookupTerms_def searchAnnots_def)

theorem lookupTerms_empty_terms_throws_witness:
  "termsInc plain_params = [] \<and>
   lookupTerms sample_store sample_env plain_params = Inl ReduceOfEmptyArray \<and>
   searchAnnots sample_store sample_env plain_params = Inl ReduceOfEmptyArray"
  using lookupTerms_empty_terms_throws [of plain_params sample_store sample_env]
  by (simp add: plain_params_def)

text \<open>
  Claim C3, as the code has it. With a non-empty \<open>termsInc\<close> and both \<open>includeHighlights\<close>
  and \<open>includeNotes\<close> false, no field is queried: \<open>lookupTerms\<close> returns the empty list of
  keys and \<open>searchAnnots\<close> the empty map; neither fails.
\<close>

theorem lookupTerms_no_fields_empty:
  assumes "termsInc params \<noteq> []" "\<not> includeHighlights params" "\<not> includeNotes params"
  shows "lookupTerms st env params = Inr [] \<and> searchAnnots st env params = Inr []"
proof -
  obtain keys where k: "lookupTerms st env params = Inr keys" 
     "set keys = (\<Inter>t \<in> set (termsInc params).
              url ` {a \<in> set (annots_coll st). fieldsContain params a t \<and> inDateWindow env params a})"
    using assms(1) by (rule lookupTerms_keys)
  obtain t0 where t0: "t0 \<in> set (termsInc params)"
    using assms(1) by (cases "termsInc params") auto
  have "url ` {a \<in> set (annots_coll st). fieldsContain params a t0 \<and> inDateWindow env params a} = {}"
    using assms(2,3) by (simp add: fieldsContain_def)
  then have "set keys = {}"
    unfolding k(2) using t0 by blast
  then show ?thesis using k(1)
    by (simp add: searchAnnots_def filterResults_Nil paginateAnnotsResults_Nil)
qed



theorem lookupTerms_no_fields_empty_witness:
  "termsInc no_fields_params \<noteq> [] \<and> \<not> includeHighlights no_fields_params \<and>
   \<not> includeNotes no_fields_params \<and>
   lookupTerms sample_store sample_env no_fields_params = Inr [] \<and>
   searchAnnots sample_store sample_env no_fields_params = Inr []"
  using lookupTerms_no_fields_empty [of no_fields_params sample_store sample_env]
  by (simp add: no_fields_params_def plain_params_def)

text \<open>
  The claim C3 as written fails: a term search for \<open>alpha\<close> with no field enabled returns
  an empty result and no error.
\<close>

theorem lookupTerms_no_fields_counterexample:
  "lookupTerms sample_store sample_env (plain_params\<lparr>termsInc := [''alpha'']\<rparr>) = Inr [] \<and>
   \<not> isl (lookupTerms sample_store sample_env (plain_params\<lparr>termsInc := [''alpha'']\<rparr>)) \<and>
   \<not> isl (searchAnnots sample_store sample_env (plain_params\<lparr>termsInc := [''alpha'']\<rparr>))"
  by (simp add: lookupTerms_def searchAnnots_def plain_params_def uniq_def
        filterResults_Nil paginateAnnotsResults_Nil)


subsection \<open>Listing by page\<close>

lemma pageLoop_never_Some:
  assumes "pageLoop st env params innerLimit results = Some y"
    and "listWithUrl st env params = Inr coll" and "innerLimit \<le> length coll"
  shows False
proof -
  have "listWithUrl st env params = Inr coll \<longrightarrow> innerLimit \<le> length coll \<longrightarrow> False"
  proof (rule pageLoop.raw_induct
      [where P = "\<lambda>st env params innerLimit results y.
                    listWithUrl st env params = Inr coll \<longrightarrow> innerLimit \<le> length coll \<longrightarrow> False",
        OF _ assms(1)])
    fix loop st env params innerLimit results y
    assume IH: "\<And>st env params innerLimit results y.
        loop st env params innerLimit results = Some y \<Longrightarrow>
        listWithUrl st env params = Inr coll \<longrightarrow> innerLimit \<le> length coll \<longrightarrow> False"
      and body: "(case listWithUrl st env params of
           Inl e \<Rightarrow> Some (Inl e)
         | Inr coll \<Rightarrow>
             let innerResults = map url (take innerLimit coll);
                 continueLookup = (innerLimit \<le> length innerResults);
                 innerResults' = filterResults st innerResults params;
                 results' = results @ innerResults'
             in if continueLookup then loop st env params innerLimit results'
                else Some (Inr results')) = Some y"
    show "listWithUrl st env params = Inr coll \<longrightarrow> innerLimit \<le> length coll \<longrightarrow> False"
    proof (intro impI)
      assume c: "listWithUrl st env params = Inr coll" and l: "innerLimit \<le> length coll"
      from body c l have "loop st env params innerLimit
          (results @ filterResults st (map url (take innerLimit coll)) params) = Some y"
        by (simp add: Let_def)
      from IH[OF this] c l show False by blast
    qed
  qed
  with assms(2,3) show False by blast
qed

lemma pageLoop_diverges:
  assumes "listWithUrl st env params = Inr coll" and "innerLimit \<le> length coll"
  shows "pageLoop st env params innerLimit results = None"
proof (cases "pageLoop st env params innerLimit results")
  case None
  then show ?thesis .
next
  case (Some y)
  from pageLoop_never_Some[OF this assms] show ?thesis ..
qed

lemma pageLoop_returns:
  assumes "listWithUrl st env params = Inr coll" and "length coll < innerLimit"
  shows "pageLoop st env params innerLimit results
           = Some (Inr (results @ filterResults st (map url coll) params))"
  using assms by (subst pageLoop.simps) (simp add: Let_def)

lemma pageLoop_throws:
  assumes "listWithUrl st env params = Inl e"
  shows "pageLoop st env params innerLimit results = Some (Inl e)"
  using assms by (subst pageLoop.simps) simp

lemma listWithUrl_one_params:
  "listWithUrl sample_store sample_env one_params = Inr [annot1, annot2]"
  by (simp add: listWithUrl_def one_params_def page_params_def plain_params_def sample_store_def
        truthy_def annot1_def annot2_def annot3_def)

lemma listWithUrl_skip_params:
  "listWithUrl sample_store sample_env skip_params = Inr [annot1, annot2]"
  by (simp add: listWithUrl_def skip_params_def page_params_def plain_params_def sample_store_def
        truthy_def annot1_def annot2_def annot3_def)

lemma listAnnotsByPage_None_iff:
  "listAnnotsByPage st env params m = None \<longleftrightarrow>
     (\<exists>coll. listWithUrl st env params = Inr coll \<and>
             limitOrDefault params * multiOrDefault m \<le> length coll)"
proof (cases "listWithUrl st env params")
  case (Inl e)
  then show ?thesis
    by (simp add: listAnnotsByPage_def pageLoop_throws)
next
  case (Inr coll)
  show ?thesis
  proof (cases "limitOrDefault params * multiOrDefault m \<le> length coll")
    case True
    with Inr show ?thesis
      by (simp add: listAnnotsByPage_def pageLoop_diverges)
  next
    case False
    then have "length coll < limitOrDefault params * multiOrDefault m" by simp
    from pageLoop_returns[OF Inr this] Inr False show ?thesis
      by (simp add: listAnnotsByPage_def Let_def)
  qed
qed

text \<open>
  Claim C1 fails on the code. With two annotations on page \<open>p\<close>, \<open>limit = 1\<close> and the
  default multiplier 2, every iteration fetches the same first two keys, the batch is never
  shorter than the inner limit, and the loop does not terminate: there is no internal skip
  offset (\<open>paginateAnnotsResults\<close> has one, \<open>internalSkip\<close>).
\<close>

theorem listAnnotsByPage_full_batch_diverges: "listAnnotsByPage sample_store sample_env one_params None = None"
proof -
  have "pageLoop sample_store sample_env one_params 2 [] = None"
    using listWithUrl_one_params by (rule pageLoop_diverges) simp
  then show ?thesis
    by (simp add: listAnnotsByPage_def limitOrDefault_def multiOrDefault_def
          DEF_INNER_LIMIT_MULTI_def one_params_def)
qed

text \<open>
  Claim C2, as the code has it. When the loop returns (fewer raw matches than the inner
  limit), \<open>listAnnotsByPage\<close> returns at most \<open>limit\<close> annotations. The \<open>skip\<close> is applied,
  with the cut to \<open>limit\<close>, only when more than \<open>limit\<close> filtered keys were accumulated;
  otherwise all filtered keys are resolved, from the first one.
\<close>

theorem listAnnotsByPage_bounded_slice:
  assumes "listWithUrl st env params = Inr coll"
      and "length coll < limitOrDefault params * multiOrDefault m"
  shows "\<exists>out. listAnnotsByPage st env params m = Some (Inr out) \<and>
           length out \<le> limitOrDefault params \<and>
           out = mapUrlsToAnnots st
                  (let filtered = filterResults st (map url coll) params
                   in if limitOrDefault params < length filtered
                      then slice filtered (skipOrDefault params) (skipOrDefault params + limitOrDefault params)
                      else filtered)"
proof -
  have "pageLoop st env params (limitOrDefault params * multiOrDefault m) []
          = Some (Inr (filterResults st (map url coll) params))"
    using pageLoop_returns[OF assms, of "[]"] by simp
  then show ?thesis
    by (simp add: listAnnotsByPage_def Let_def mapUrlsToAnnots_resolved slice_def)
qed

theorem listAnnotsByPage_bounded_slice_witness:
  "listWithUrl sample_store sample_env page_params = Inr [annot1, annot2] \<and>
   length [annot1, annot2] < limitOrDefault page_params * multiOrDefault (Some 3) \<and>
   listAnnotsByPage sample_store sample_env page_params (Some 3) = Some (Inr [Some annot1, Some annot2])"
proof -
  have h1: "listWithUrl sample_store sample_env page_params = Inr [annot1, annot2]"
    by (simp add: listWithUrl_def page_params_def plain_params_def sample_store_def
          truthy_def annot1_def annot2_def annot3_def)
  have h2: "length [annot1, annot2] < limitOrDefault page_params * multiOrDefault (Some 3)"
    by (simp add: limitOrDefault_def multiOrDefault_def page_params_def plain_params_def)
  from listAnnotsByPage_bounded_slice [OF h1 h2] h1 h2 show ?thesis
    by (simp add: limitOrDefault_def skipOrDefault_def filterResults_def page_params_def
          plain_params_def has_items_def annot1_def annot2_def annot3_def
          mapUrlsToAnnots_resolved resolved_def sample_store_def)
qed

text \<open>
  The claim C2 as written fails: with \<open>limit = 2\<close>, \<open>skip = 1\<close> and two filtered matches
  the result starts at the first match, not at the second.
\<close>

theorem listAnnotsByPage_skip_counterexample:
  "listAnnotsByPage sample_store sample_env skip_params None = Some (Inr [Some annot1, Some annot2]) \<and>
   listAnnotsByPage sample_store sample_env skip_params None \<noteq>
     Some (Inr (mapUrlsToAnnots sample_store
       (slice (filterResults sample_store [''a1'', ''a2''] skip_params)
          (skipOrDefault skip_params) (skipOrDefault skip_params + limitOrDefault skip_params))))"
proof -
  have "pageLoop sample_store sample_env skip_params 4 []
      = Some (Inr ([] @ filterResults sample_store (map url [annot1, annot2]) skip_params))"
    using listWithUrl_skip_params by (rule pageLoop_returns) simp
  then show ?thesis
       by (simp add: listAnnotsByPage_def limitOrDefault_def multiOrDefault_def DEF_INNER_LIMIT_MULTI_def
            filterResults_def skip_params_def page_params_def plain_params_def has_items_def annot1_def annot2_def
            mapUrlsToAnnots_resolved resolved_def sample_store_def annot3_def skipOrDefault_def slice_def)
qed


subsection \<open>Listing by day\<close>

lemma nextCursor_bounds:
  fixes lim :: nat
  assumes "lower < c"
  defines "c' \<equiv> (if diffDays c lower < int lim then lower else c - int lim * day_ms)"
  shows "lower \<le> c'" and "c' \<le> c" and "c' \<noteq> lower \<Longrightarrow> c' = c - int lim * day_ms"
proof -
  have d: "diffDays c lower = (c - lower) div day_ms"
    using assms(1) by (simp add: diffDays_def)
  have "int lim * day_ms \<le> c - lower" if "\<not> diffDays c lower < int lim"
  proof -
    from that d have "int lim \<le> (c - lower) div day_ms" by simp
    then have "int lim * day_ms \<le> ((c - lower) div day_ms) * day_ms"
      by (simp add: day_ms_def)
    also have "\<dots> \<le> c - lower"
      by (simp add: day_ms_def)
    finally show ?thesis .
  qed
  then show "lower \<le> c'" 
    by (auto simp: c'_def)
  show "c' \<le> c"
    using assms(1) by (auto simp: c'_def day_ms_def)
  show "c' \<noteq> lower \<Longrightarrow> c' = c - int lim * day_ms"
    by (auto simp: c'_def)
qed

lemma dayLoop_queries:
  "dayLoop st env params lim lower c results qs = (res, out) \<Longrightarrow>
     \<exists>new. out = qs @ new \<and>
       (\<forall>(lo, hi) \<in> set new. lower \<le> lo \<and> lo < hi \<and> hi \<le> c) \<and>
       (new \<noteq> [] \<longrightarrow> lower < c \<and> (int (length new) - 1) * (int lim * day_ms) < c - lower)"
proof (induction st env params lim lower c results qs arbitrary: res out rule: dayLoop.induct)
  case (1 st env params lim lower c results qs)
  show ?case
  proof (cases "length results < lim \<and> lower < c")
    case False
    with "1.prems" have "out = qs"
      by (subst (asm) dayLoop.simps) auto
    then show ?thesis by simp
  next
    case True
    define c' where "c' = (if diffDays c lower < int lim then lower else c - int lim * day_ms)"
    define annots where "annots = queryAnnotsByDay st (NumKey c') (DateKey c)"
    define pks where "pks = set (filterResults st (map url annots) params)"
    define annots' where "annots' = filter (\<lambda>annot. url annot \<in> pks) annots"
    have lim: "0 < lim" using True by simp
    have b: "lower \<le> c'" "c' \<le> c" "c' \<noteq> lower \<Longrightarrow> c' = c - int lim * day_ms"
      using nextCursor_bounds[of lower c lim] True by (simp_all add: c'_def)
    have lt: "c' < c"
    proof (cases "c' = lower")
      case True
      then show ?thesis using \<open>length results < lim \<and> lower < c\<close> by simp
    next
      case False
      from b(3)[OF this] lim show ?thesis by (simp add: day_ms_def)
    qed
    from "1.prems" True
    have run: "dayLoop st env params lim lower c'
            (mergeResults results (clusterAnnotsByPage env annots')) (qs @ [(c', c)]) = (res, out)"
      by (subst (asm) dayLoop.simps) (simp add: Let_def c'_def annots_def pks_def annots'_def)
    from "1.IH"[OF True refl c'_def annots_def pks_def annots'_def run]
    obtain new where new: "out = (qs @ [(c', c)]) @ new"
        "\<forall>(lo, hi) \<in> set new. lower \<le> lo \<and> lo < hi \<and> hi \<le> c'"
        "new \<noteq> [] \<longrightarrow> lower < c' \<and> (int (length new) - 1) * (int lim * day_ms) < c' - lower"
      by blast
    have 1: "out = qs @ ((c', c) # new)"
      using new(1) by simp
    have 2: "\<forall>(lo, hi) \<in> set ((c', c) # new). lower \<le> lo \<and> lo < hi \<and> hi \<le> c"
      using new(2) b lt by auto
    have 3: "(int (length ((c', c) # new)) - 1) * (int lim * day_ms) < c - lower"
    proof (cases "new = []")
      case True
      then show ?thesis using \<open>length results < lim \<and> lower < c\<close> by simp
    next
      case False
      with new(3) have n: "lower < c'" "(int (length new) - 1) * (int lim * day_ms) < c' - lower"
        by simp_all
      then have "c' = c - int lim * day_ms" using b(3) by simp
      with n(2) show ?thesis by (simp add: algebra_simps)
    qed
    from 1 2 3 True show ?thesis by blast
  qed
qed

lemma calcHardLowerTimeBound_max:
  "calcHardLowerTimeBound env params =
     max (or_default (startDate params) (annotsReleaseDate env))
         (case installTime env of None \<Rightarrow> now env | Some t \<Rightarrow> t)"
  by (simp add: calcHardLowerTimeBound_def Let_def max_def)

lemma listAnnotsByDay_queries_dayLoop:
  "listAnnotsByDay_queries st env params =
     (case limit params of
        None \<Rightarrow> []
      | Some lim \<Rightarrow> snd (dayLoop st env params lim (calcHardLowerTimeBound env params)
                          (initialDateCursor env params) [] []))"
  by (simp add: listAnnotsByDay_queries_def listAnnotsByDay_run_def Let_def
        split: option.splits prod.splits)

lemma queryAnnotsByDay_number_below_dates:
  "queryAnnotsByDay st (NumKey lo) (DateKey hi) =
     rev (sort_key lastEdited (filter (\<lambda>a. lastEdited a \<le> hi) (annots_coll st)))"
  by (simp add: queryAnnotsByDay_def)

text \<open>
  Claim C5, as the code has it. The date cursor of \<open>listAnnotsByDay\<close>, whose value is
  handed to each range query as its lower endpoint, never goes below the hard lower bound,
  which is the later of \<open>startDate\<close> (when given, else the first of June 2018) and the
  installation time. Each iteration of the loop issues one query, and their number \<open>n\<close>
  satisfies \<open>n * limit \<le> span + limit\<close>, where \<open>span\<close> is the number of whole days between
  the start cursor and the lower bound: at most \<open>span / limit\<close> full steps and one more,
  clamped to the bound. The loop being a total function, it terminates. Which rows the
  store returns for an endpoint is not part of the statement.
\<close>

theorem listAnnotsByDay_cursor_bound_and_iterations:
  "(\<forall>(lo, hi) \<in> set (listAnnotsByDay_queries st env params).
      calcHardLowerTimeBound env params \<le> lo \<and> lo < hi \<and> hi \<le> initialDateCursor env params) \<and>
   calcHardLowerTimeBound env params =
     max (or_default (startDate params) (annotsReleaseDate env))
         (case installTime env of None \<Rightarrow> now env | Some t \<Rightarrow> t) \<and>
   (\<forall>lim. limit params = Some lim \<longrightarrow>
      length (listAnnotsByDay_queries st env params) * lim
        \<le> nat (diffDays (initialDateCursor env params) (calcHardLowerTimeBound env params)) + lim)"
proof (cases "limit params")
  case None
  then show ?thesis
    by (simp add: listAnnotsByDay_queries_dayLoop calcHardLowerTimeBound_max)
next
  case (Some lim)
  let ?lower = "calcHardLowerTimeBound env params"
  let ?c = "initialDateCursor env params"
  obtain res out where run: "dayLoop st env params lim ?lower ?c [] [] = (res, out)"
    by (cases "dayLoop st env params lim ?lower ?c [] []") 
  have q: "listAnnotsByDay_queries st env params = out"
    using Some run by (simp add: listAnnotsByDay_queries_dayLoop)
  from dayLoop_queries[OF run]
  have a: "\<forall>(lo, hi) \<in> set out. ?lower \<le> lo \<and> lo < hi \<and> hi \<le> ?c"
    and b: "out \<noteq> [] \<longrightarrow> ?lower < ?c \<and> (int (length out) - 1) * (int lim * day_ms) < ?c - ?lower"
    by auto
  have "length out * lim \<le> nat (diffDays ?c ?lower) + lim"
  proof (cases "out = []")
    case True
    then show ?thesis by simp
  next
    case False
    with b have lc: "?lower < ?c" and n: "(int (length out) - 1) * (int lim * day_ms) < ?c - ?lower"
      by simp_all
    have "((int (length out) - 1) * int lim) * day_ms \<le> ?c - ?lower"
      using n by (simp add: mult.assoc)
    then have "((int (length out) - 1) * int lim * day_ms) div day_ms \<le> (?c - ?lower) div day_ms"
      by (intro zdiv_mono1) (simp_all add: day_ms_def)
    then have "(int (length out) - 1) * int lim \<le> diffDays ?c ?lower"
      using lc by (simp add: diffDays_def day_ms_def)
    then have "int (length out * lim) \<le> diffDays ?c ?lower + int lim"
      by (simp add: algebra_simps)
    then show ?thesis by linarith
  qed
  with a q Some show ?thesis
    by (simp add: calcHardLowerTimeBound_max)
qed

theorem listAnnotsByDay_cursor_bound_and_iterations_witness:
  "listAnnotsByDay_queries sample_store sample_env day_params
     = [(1600041599999, 1600214399999)] \<and>
   calcHardLowerTimeBound sample_env day_params = 1599900000000 \<and>
   initialDateCursor sample_env day_params = 1600214399999 \<and>
   limit day_params = Some 2 \<and>
   length (listAnnotsByDay_queries sample_store sample_env day_params) * 2
     \<le> nat (diffDays (initialDateCursor sample_env day_params)
               (calcHardLowerTimeBound sample_env day_params)) + 2"
  using listAnnotsByDay_cursor_bound_and_iterations [of sample_store sample_env day_params]
  by (simp add: listAnnotsByDay_queries_dayLoop day_params_def three_days_params_def
        plain_params_def calcHardLowerTimeBound_def initialDateCursor_def sample_env_def
        annotsReleaseDate_def or_default_def endOfDay_def startOfDay_def day_ms_def dayLoop.simps
        diffDays_def Let_def queryAnnotsByDay_def sample_store_def annot1_def annot2_def
        annot3_def filterResults_def has_items_def mergeResults_def clusterAnnotsByPage_def
        clusterAnnotsByDays_def get_or_empty_def map_get_def)

text \<open>
  The claim C5 as written fails: with \<open>limit = 3\<close> and a span of 314399999 ms (3.64 days)
  between the start cursor and the lower bound the loop runs twice, a full step of three
  days and the clamped rest, which is more than \<open>span / limit\<close>.
\<close>

theorem listAnnotsByDay_iterations_counterexample:
  "listAnnotsByDay_queries sample_store sample_env three_days_params
     = [(1599955199999, 1600214399999), (1599900000000, 1599955199999)] \<and>
   limit three_days_params = Some 3 \<and>
   initialDateCursor sample_env three_days_params
     - calcHardLowerTimeBound sample_env three_days_params = 314399999 \<and>
   \<not> int (length (listAnnotsByDay_queries sample_store sample_env three_days_params)) * (3 * day_ms)
       \<le> initialDateCursor sample_env three_days_params
           - calcHardLowerTimeBound sample_env three_days_params \<and>
   \<not> int (length (listAnnotsByDay_queries sample_store sample_env three_days_params))
       \<le> diffDays (initialDateCursor sample_env three_days_params)
             (calcHardLowerTimeBound sample_env three_days_params) div 3"
  by (simp add: listAnnotsByDay_queries_dayLoop day_params_def three_days_params_def
        plain_params_def calcHardLowerTimeBound_def initialDateCursor_def sample_env_def
        annotsReleaseDate_def or_default_def endOfDay_def startOfDay_def day_ms_def dayLoop.simps
        diffDays_def Let_def queryAnnotsByDay_def sample_store_def annot1_def annot2_def
        annot3_def filterResults_def has_items_def mergeResults_def clusterAnnotsByPage_def
        clusterAnnotsByDays_def get_or_empty_def map_get_def)


subsection \<open>Clustering\<close>

lemma keys_map_set_image: "fst ` set (map_set m k v) = insert k (fst ` set m)"
proof -
  have "set (map fst (map_set m k v)) = insert k (set (map fst m))"
    unfolding keys_map_set by (simp add: insert_absorb)
  then show ?thesis by simp
qed

lemma get_or_empty_map_set:
  "get_or_empty (map_set m k v) k' = (if k' = k then v else get_or_empty m k')"
  by (simp add: get_or_empty_def map_get_map_set)

lemma get_or_empty_Nil: "get_or_empty [] k = []"
  by (simp add: get_or_empty_def map_get_def)

lemma get_or_empty_mem:
  "distinct (map fst m) \<Longrightarrow> (k, v) \<in> set m \<Longrightarrow> get_or_empty m k = v"
  by (simp add: get_or_empty_def map_get_def)

lemma groupBy_get:
  "get_or_empty (groupBy kf m0 xs) k = get_or_empty m0 k @ filter (\<lambda>a. kf a = k) xs"
  unfolding groupBy_def
  by (induction xs arbitrary: m0) (auto simp: get_or_empty_map_set)

lemma groupBy_keys:
  "fst ` set (groupBy kf m0 xs) = fst ` set m0 \<union> kf ` set xs"
  unfolding groupBy_def
proof (induction xs arbitrary: m0)
  case Nil
  then show ?case by simp
next
  case (Cons x xs)
  have "fst ` set (map_set m0 (kf x) v) = insert (kf x) (fst ` set m0)" for v
    by (rule keys_map_set_image)
  with Cons.IH show ?case by auto
qed

lemma groupBy_distinct:
  "distinct (map fst m0) \<Longrightarrow> distinct (map fst (groupBy kf m0 xs))"
  unfolding groupBy_def
  by (induction xs arbitrary: m0) (simp_all add: distinct_map_set)

lemma groupBy_bucket:
  assumes "(k, v) \<in> set (groupBy kf [] xs)"
  shows "v = filter (\<lambda>a. kf a = k) xs" and "k \<in> kf ` set xs"
proof -
  have "distinct (map fst (groupBy kf [] xs))"
    by (rule groupBy_distinct) simp
  from get_or_empty_mem[OF this assms] show "v = filter (\<lambda>a. kf a = k) xs"
    by (simp add: groupBy_get get_or_empty_Nil)
  from assms have "k \<in> fst ` set (groupBy kf [] xs)"
    by force
  then show "k \<in> kf ` set xs"
    by (simp add: groupBy_keys)
qed

lemma map_set_fresh: "k \<notin> fst ` set m \<Longrightarrow> map_set m k v = m @ [(k, v)]"
  by (induction m) auto

lemma foldl_map_set_fresh:
  "distinct (map fst xs) \<Longrightarrow> fst ` set m0 \<inter> fst ` set xs = {} \<Longrightarrow>
     foldl (\<lambda>m (k, v). map_set m k (f v)) m0 xs = m0 @ map (\<lambda>(k, v). (k, f v)) xs"
proof (induction xs arbitrary: m0)
  case Nil
  then show ?case by simp
next
  case (Cons x xs)
  obtain k v where x: "x = (k, v)" by (cases x)
  have fresh: "k \<notin> fst ` set m0" using Cons.prems(2) x by auto
  have "fst ` set (m0 @ [(k, f v)]) \<inter> fst ` set xs = {}"
    using Cons.prems x by auto
  with Cons.IH[of "m0 @ [(k, f v)]"] Cons.prems(1) show ?case
    using x fresh by (simp add: map_set_fresh)
qed

lemma clusterAnnotsByDays_groupBy:
  "clusterAnnotsByDays env annots = groupBy (dayOf env) [] (sort_key (\<lambda>a. - lastEdited a) annots)"
  by (simp add: clusterAnnotsByDays_def groupBy_def dayOf_def Let_def)

lemma clusterAnnotsByPage_map:
  "clusterAnnotsByPage env annots =
     map (\<lambda>(d, matching). (d, groupBy pageUrl [] matching)) (clusterAnnotsByDays env annots)"
proof -
  have "distinct (map fst (clusterAnnotsByDays env annots))"
    unfolding clusterAnnotsByDays_groupBy by (rule groupBy_distinct) simp
  from foldl_map_set_fresh[OF this, of "[]" "groupBy pageUrl []"] show ?thesis
    by (simp add: clusterAnnotsByPage_def groupBy_def Let_def)
qed

lemma startOfDay_aligned: "(startOfDay env t + utcOffset env) mod day_ms = 0"
proof -
  have "startOfDay env t + utcOffset env = (t + utcOffset env) - (t + utcOffset env) mod day_ms"
    by (simp add: startOfDay_def)
  then show ?thesis
    by (simp add: minus_mod_eq_mult_div)
qed

lemma startOfDay_range: "startOfDay env t \<le> t \<and> t < startOfDay env t + day_ms"
  by (simp add: startOfDay_def day_ms_def)

lemma buckets_mem:
  "(((d, p), as) \<in> set (buckets r)) = (\<exists>pageMap. (d, pageMap) \<in> set r \<and> (p, as) \<in> set pageMap)"
  by (induction r) (auto simp: buckets_def)

lemma bucket_char:
  assumes "((d, p), as) \<in> set (buckets (clusterAnnotsByPage env annots))"
  shows "as = filter (\<lambda>a. dayOf env a = d \<and> pageUrl a = p) (sort_key (\<lambda>a. - lastEdited a) annots)"
    and "as \<noteq> []"
    and "\<exists>t. d = startOfDay env t"
proof -
  let ?S = "sort_key (\<lambda>a. - lastEdited a) annots"
  from assms obtain pageMap where pm: "(d, pageMap) \<in> set (clusterAnnotsByPage env annots)"
      "(p, as) \<in> set pageMap"
    unfolding buckets_mem by blast
  from pm(1) obtain matching where m: "(d, matching) \<in> set (clusterAnnotsByDays env annots)"
      "pageMap = groupBy pageUrl [] matching"
    unfolding clusterAnnotsByPage_map by auto
  from m(1) have m1: "matching = filter (\<lambda>a. dayOf env a = d) ?S" and m2: "d \<in> dayOf env ` set ?S"
    unfolding clusterAnnotsByDays_groupBy by (rule groupBy_bucket)+
  from pm(2) have a1: "as = filter (\<lambda>a. pageUrl a = p) matching" and a2: "p \<in> pageUrl ` set matching"
    unfolding m(2) by (rule groupBy_bucket)+
  show "as = filter (\<lambda>a. dayOf env a = d \<and> pageUrl a = p) ?S"
    unfolding a1 m1 by (simp add: conj_commute)
  from a2 obtain a where "a \<in> set matching" "pageUrl a = p" by auto
  then have "a \<in> set as" unfolding a1 by simp
  then show "as \<noteq> []" by auto
  from m2 show "\<exists>t. d = startOfDay env t"
    by (auto simp: dayOf_def)
qed

lemma bucket_exists:
  assumes "a \<in> set annots"
  shows "\<exists>as. ((dayOf env a, pageUrl a), as) \<in> set (buckets (clusterAnnotsByPage env annots))"
proof -
  let ?S = "sort_key (\<lambda>a. - lastEdited a) annots"
  have aS: "a \<in> set ?S" using assms by simp
  then have "dayOf env a \<in> fst ` set (clusterAnnotsByDays env annots)"
    unfolding clusterAnnotsByDays_groupBy groupBy_keys by simp
  then obtain matching where m: "(dayOf env a, matching) \<in> set (clusterAnnotsByDays env annots)"
    by auto
  then have "matching = filter (\<lambda>b. dayOf env b = dayOf env a) ?S"
    unfolding clusterAnnotsByDays_groupBy by (rule groupBy_bucket)
  with aS have "a \<in> set matching" by simp
  then have "pageUrl a \<in> fst ` set (groupBy pageUrl [] matching)"
    unfolding groupBy_keys by simp
  then obtain as where "(pageUrl a, as) \<in> set (groupBy pageUrl [] matching)"
    by auto
  moreover from m have "(dayOf env a, groupBy pageUrl [] matching) \<in> set (clusterAnnotsByPage env annots)"
    unfolding clusterAnnotsByPage_map by force
  ultimately show ?thesis
    unfolding buckets_mem by blast
qed

lemma distinct_buckets:
  assumes "distinct (map fst r)" and "\<forall>(d, pageMap) \<in> set r. distinct (map fst pageMap)"
  shows "distinct (map fst (buckets r))"
  using assms
proof (induction r)
  case Nil
  then show ?case by (simp add: buckets_def)
next
  case (Cons x r)
  obtain d pageMap where x: "x = (d, pageMap)" by (cases x)
  have b: "buckets (x # r) = map (\<lambda>(p, annots). ((d, p), annots)) pageMap @ buckets r"
    by (simp add: buckets_def x)
  have 1: "distinct (map fst (map (\<lambda>(p, annots). ((d, p), annots)) pageMap))"
  proof -
    have "map fst (map (\<lambda>(p, annots). ((d, p), annots)) pageMap) = map (Pair d) (map fst pageMap)"
      by (simp add: case_prod_unfold comp_def)
    moreover have "distinct (map fst pageMap)" using Cons.prems(2) x by simp
    ultimately show ?thesis by (simp add: distinct_map inj_on_def)
  qed
  have 2: "distinct (map fst (buckets r))"
    using Cons by simp
  have 3: "fst ` set (map (\<lambda>(p, annots). ((d, p), annots)) pageMap) \<inter> fst ` set (buckets r) = {}"
  proof -
    have "d \<notin> fst ` set r" using Cons.prems(1) x by simp
    then have "\<And>d' p as. ((d', p), as) \<in> set (buckets r) \<Longrightarrow> d' \<noteq> d"
      unfolding buckets_mem by force
    then show ?thesis by force
  qed
  from 1 2 3 show ?case unfolding b by (simp add: image_Un image_image comp_def)
qed

lemma clusterAnnotsByPage_distinct:
  "distinct (map fst (buckets (clusterAnnotsByPage env annots)))"
proof (rule distinct_buckets)
  have d: "distinct (map fst (clusterAnnotsByDays env annots))"
    unfolding clusterAnnotsByDays_groupBy by (rule groupBy_distinct) simp
  have "map fst (clusterAnnotsByPage env annots) = map fst (clusterAnnotsByDays env annots)"
    unfolding clusterAnnotsByPage_map by (simp add: case_prod_unfold comp_def)
  with d show "distinct (map fst (clusterAnnotsByPage env annots))" by simp
  show "\<forall>(d, pageMap) \<in> set (clusterAnnotsByPage env annots). distinct (map fst pageMap)"
    unfolding clusterAnnotsByPage_map by (auto intro: groupBy_distinct)
qed

text \<open>
  Claim C6. In the clustering of any list of annotations the (day, page) buckets have
  distinct keys; every input annotation lies in exactly one bucket; a bucket holds exactly
  the input annotations of its day and page, each as often as the input has it; its day
  key is the start of a local day; and its annotations are in descending order of
  \<open>lastEdited\<close>.
\<close>

theorem clusterAnnotsByPage_buckets:
  "distinct (map fst (buckets (clusterAnnotsByPage env annots))) \<and>
   (\<forall>a \<in> set annots. \<exists>!k. \<exists>as. (k, as) \<in> set (buckets (clusterAnnotsByPage env annots)) \<and> a \<in> set as) \<and>
   (\<forall>((d, p), as) \<in> set (buckets (clusterAnnotsByPage env annots)).
      mset as = {#a \<in># mset annots. dayOf env a = d \<and> pageUrl a = p#} \<and>
      (d + utcOffset env) mod day_ms = 0 \<and>
      sorted_wrt (\<lambda>a b. lastEdited b \<le> lastEdited a) as)"
proof (intro conjI ballI)
  show "distinct (map fst (buckets (clusterAnnotsByPage env annots)))"
    by (rule clusterAnnotsByPage_distinct)
next
  fix a assume a: "a \<in> set annots"
  let ?B = "buckets (clusterAnnotsByPage env annots)"
  from bucket_exists[OF a] obtain as where as: "((dayOf env a, pageUrl a), as) \<in> set ?B"
    by blast
  from bucket_char(1)[OF as] a have "a \<in> set as" by simp
  moreover have "k = (dayOf env a, pageUrl a)" if "(k, bs) \<in> set ?B" "a \<in> set bs" for k bs
  proof -
    obtain d p where k: "k = (d, p)" by (cases k)
    from bucket_char(1)[OF that(1)[unfolded k]] that(2) show ?thesis
      unfolding k by simp
  qed
  ultimately show "\<exists>!k. \<exists>as. (k, as) \<in> set ?B \<and> a \<in> set as"
    using as by blast
next
  fix x assume x: "x \<in> set (buckets (clusterAnnotsByPage env annots))"
  obtain d p as where xe: "x = ((d, p), as)" by (cases x) auto
  note c = bucket_char[OF x[unfolded xe]]
  have 1: "mset as = {#a \<in># mset annots. dayOf env a = d \<and> pageUrl a = p#}"
    unfolding c(1) by simp
  have 2: "(d + utcOffset env) mod day_ms = 0"
    using c(3) startOfDay_aligned by auto
  have "sorted (map (\<lambda>a. - lastEdited a) (sort_key (\<lambda>a. - lastEdited a) annots))"
    by simp
  then have "sorted (map (\<lambda>a. - lastEdited a) as)"
    unfolding c(1) by (rule sorted_filter)
  then have 3: "sorted_wrt (\<lambda>a b. lastEdited b \<le> lastEdited a) as"
    by (simp add: sorted_map)
  from 1 2 3 show "case x of (x, xa) \<Rightarrow> (case x of (d, p) \<Rightarrow> \<lambda>as. 
      mset as = {#a \<in># mset annots. dayOf env a = d \<and> pageUrl a = p#} \<and>
      (d + utcOffset env) mod day_ms = 0 \<and>
      sorted_wrt (\<lambda>a b. lastEdited b \<le> lastEdited a) as) xa"
    unfolding xe by simp
qed

theorem clusterAnnotsByPage_buckets_witness:
  "buckets (clusterAnnotsByPage sample_env [annot1, annot3, annot2]) =
     [((1600041600000, ''q''), [annot3]), ((1599955200000, ''p''), [annot2, annot1])] \<and>
   distinct (map fst (buckets (clusterAnnotsByPage sample_env [annot1, annot3, annot2]))) \<and>
   (1600041600000 + utcOffset sample_env) mod day_ms = 0 \<and>
   (1599955200000 + utcOffset sample_env) mod day_ms = 0 \<and>
   sorted_wrt (\<lambda>a b. lastEdited b \<le> lastEdited a) [annot2, annot1]"
proof -
  have v: "buckets (clusterAnnotsByPage sample_env [annot1, annot3, annot2]) =
     [((1600041600000, ''q''), [annot3]), ((1599955200000, ''p''), [annot2, annot1])]"
    by (simp add: buckets_def clusterAnnotsByPage_def clusterAnnotsByDays_def Let_def
          annot1_def annot2_def annot3_def sample_env_def startOfDay_def day_ms_def
          get_or_empty_def map_get_def)
  from clusterAnnotsByPage_buckets [of sample_env "[annot1, annot3, annot2]"] v
  show ?thesis
    by (simp add: sample_env_def day_ms_def annot1_def annot2_def)
qed


end
